theory Spec2Isabelle
  imports Main
begin

section \<open>Annotated documents\<close>

text \<open>
  The module \<^verbatim>\<open>textacy/spacy_utils.py\<close> works on the objects of an annotation pipeline:
  a document, its tokens and spans of tokens. These objects are not part of the module;
  they are modelled here by the attributes the module reads.

  A document is the array of its tokens together with the two readiness flags. A token
  object of the source is a position \<open>i\<close> in a document \<open>d\<close>, so the operations below take
  the document and the position; \<^verbatim>\<open>token.i\<close> is the position itself.
\<close>

text \<open>
  Modelled from the spec: the coarse part of speech (\<^verbatim>\<open>spacy.parts_of_speech\<close>, absent
  from the sources), a closed enumeration of which the module names \<open>NOUN\<close> and \<open>VERB\<close>.
\<close>

datatype pos = NO_TAG | ADJ | ADP | ADV | AUX | CONJ | DET | INTJ | NOUN | NUM | PART | PRON
  | PROPN | PUNCT | SCONJ | SYM | VERB | X_TAG | EOL | SPACE

text \<open>
  The attributes of a token: surface text, lowercased surface text (\<^verbatim>\<open>token.lower\<close>,
  which the pipeline computes), trailing whitespace, character offset
  (\<^verbatim>\<open>token.idx\<close>), lemma, coarse part of speech, fine-grained tag, dependency label, the
  position of the syntactic head (a root is its own head) and entity type.
\<close>

record token =
  text_str :: string
  lower_str :: string
  whitespace_str :: string
  idx :: nat
  lemma_str :: string
  pos :: pos
  tag_str :: string
  dep_str :: string
  head :: nat
  ent_type_str :: string

record doc =
  tokens :: "token list"
  is_tagged :: bool
  is_parsed :: bool

text \<open>
  The exceptions an operation can end with: the \<^verbatim>\<open>ValueError\<close> of the readiness
  checks, with its message, and the \<^verbatim>\<open>IndexError\<close> and \<^verbatim>\<open>RuntimeError\<close> that an
  access to a span can raise.
\<close>

datatype error = ValueError string | IndexError | RuntimeError

text \<open>
  Modelled from the spec: the syntactic children of a token (\<^verbatim>\<open>token.lefts\<close>,
  \<^verbatim>\<open>token.rights\<close>, \<^verbatim>\<open>token.children\<close>, absent from the sources). The children of \<open>i\<close>
  are the tokens whose head is \<open>i\<close>; the left children are those before \<open>i\<close>, the right
  children those after \<open>i\<close>, each in document order; \<^verbatim>\<open>children\<close> yields the left
  children and then the right ones.
\<close>

definition lefts :: "doc \<Rightarrow> nat \<Rightarrow> nat list" where
  "lefts d i = [j \<leftarrow> [0..<length (tokens d)]. j < i \<and> head (tokens d ! j) = i]"

definition rights :: "doc \<Rightarrow> nat \<Rightarrow> nat list" where
  "rights d i = [j \<leftarrow> [0..<length (tokens d)]. i < j \<and> head (tokens d ! j) = i]"

definition children :: "doc \<Rightarrow> nat \<Rightarrow> nat list" where
  "children d i = lefts d i @ rights d i"

section \<open>Token-level classifiers\<close>

text \<open>
  \<^verbatim>\<open>is_plural_noun(token)\<close> and \<^verbatim>\<open>is_negated_verb(token)\<close>: each first checks the
  readiness flag of the token's document and raises \<^verbatim>\<open>ValueError\<close> when it is false.
\<close>

definition is_plural_noun :: "doc \<Rightarrow> nat \<Rightarrow> error + bool" where
  "is_plural_noun d i =
     (if is_tagged d = False then Inl (ValueError ''token is not POS-tagged'')
      else Inr (if pos (tokens d ! i) = NOUN \<and> lemma_str (tokens d ! i) \<noteq> lower_str (tokens d ! i)
                then True else False))"

definition is_negated_verb :: "doc \<Rightarrow> nat \<Rightarrow> error + bool" where
  "is_negated_verb d i =
     (if is_parsed d = False then Inl (ValueError ''token is not parsed'')
      else if pos (tokens d ! i) = VERB
              \<and> list_ex (\<lambda>c. dep_str (tokens d ! c) = ''neg'') (children d i)
           then Inr True
           else Inr False)"

section \<open>Dependency extraction\<close>

text \<open>
  \<^verbatim>\<open>_get_conjuncts(tok)\<close>: the right children of \<open>tok\<close> labelled \<^verbatim>\<open>conj\<close>.
\<close>

definition get_conjuncts :: "doc \<Rightarrow> nat \<Rightarrow> nat list" where
  "get_conjuncts d tok = [right \<leftarrow> rights d tok. dep_str (tokens d ! right) = ''conj'']"

text \<open>
  The statement \<^verbatim>\<open>subjs.extend(tok for subj in subjs for tok in _get_conjuncts(subj))\<close>
  iterates over the list it extends. The iterator of a Python list keeps a position \<open>k\<close>
  and compares it with the current length at every step, and \<^verbatim>\<open>extend\<close> appends each
  item as soon as the generator yields it. So the loop visits the appended tokens too:
  at position \<open>k\<close> it appends the conjuncts of \<open>subjs[k]\<close> and moves on to \<open>k + 1\<close>, until
  \<open>k\<close> reaches the end of the list. A loop that never reaches the end has the value \<open>None\<close>.
\<close>

partial_function (option) extend_conjuncts :: "doc \<Rightarrow> nat list \<Rightarrow> nat \<Rightarrow> nat list option" where
  "extend_conjuncts d subjs k =
     (if k < length subjs
      then extend_conjuncts d (subjs @ get_conjuncts d (subjs ! k)) (Suc k)
      else Some subjs)"

text \<open>
  \<^verbatim>\<open>get_subjects_of_verb(verb)\<close> and \<^verbatim>\<open>get_objects_of_verb(verb)\<close>. The label sets
  \<^verbatim>\<open>SUBJ_DEPS\<close> and \<^verbatim>\<open>OBJ_DEPS\<close> are imported from a configuration module that is not
  part of the sources; they are parameters here.
\<close>

definition get_subjects_of_verb :: "string set \<Rightarrow> doc \<Rightarrow> nat \<Rightarrow> nat list option" where
  "get_subjects_of_verb SUBJ_DEPS d verb =
     (let subjs = [tok \<leftarrow> lefts d verb. dep_str (tokens d ! tok) \<in> SUBJ_DEPS]
      in extend_conjuncts d subjs 0)"

definition get_objects_of_verb :: "string set \<Rightarrow> doc \<Rightarrow> nat \<Rightarrow> nat list option" where
  "get_objects_of_verb OBJ_DEPS d verb =
     (let objs = [tok \<leftarrow> rights d verb. dep_str (tokens d ! tok) \<in> OBJ_DEPS];
          objs = objs @ [tok \<leftarrow> rights d verb. dep_str (tokens d ! tok) = ''xcomp'']
      in extend_conjuncts d objs 0)"

section \<open>Span boundaries\<close>

text \<open>
  \<^verbatim>\<open>get_span_for_compound_noun(noun)\<close> and \<^verbatim>\<open>get_span_for_verb_auxiliaries(verb)\<close>
  count with \<^verbatim>\<open>sum(1 for _ in takewhile(...))\<close>; the bounds are Python integers.
  \<^verbatim>\<open>AUX_DEPS\<close> is a parameter, as the other label sets are.
\<close>

definition get_span_for_compound_noun :: "doc \<Rightarrow> nat \<Rightarrow> int \<times> int" where
  "get_span_for_compound_noun d noun =
     (let min_i = int noun
            - (\<Sum>_ \<leftarrow> takeWhile (\<lambda>x. dep_str (tokens d ! x) = ''compound'') (rev (lefts d noun)). 1)
      in (min_i, int noun))"

definition get_span_for_verb_auxiliaries :: "string set \<Rightarrow> doc \<Rightarrow> nat \<Rightarrow> int \<times> int" where
  "get_span_for_verb_auxiliaries AUX_DEPS d verb =
     (let min_i = int verb
            - (\<Sum>_ \<leftarrow> takeWhile (\<lambda>x. dep_str (tokens d ! x) \<in> AUX_DEPS) (rev (lefts d verb)). 1);
          max_i = int verb
            + (\<Sum>_ \<leftarrow> takeWhile (\<lambda>x. dep_str (tokens d ! x) \<in> AUX_DEPS) (rights d verb). 1)
      in (min_i, max_i))"

section \<open>Span merger\<close>

text \<open>
  Modelled from the spec: a span (the pipeline's \<^verbatim>\<open>Span\<close> object, absent from the
  sources), a half-open range \<open>[start, end)\<close> of document positions with a label. The
  span of the pipeline is a view into its document. When it is created it also records
  the character offsets of its range, and at every access it checks them against the
  document: when the document has changed it finds its range again by these offsets,
  and the access raises \<^verbatim>\<open>IndexError\<close> when no token starts or ends there.
\<close>

record span =
  span_start :: nat
  span_end :: nat
  start_char :: nat
  end_char :: nat
  label_str :: string

text \<open>
  Modelled from the spec: the position of the token that starts, or ends, at a character
  offset (absent from the sources).
\<close>

definition token_by_start :: "doc \<Rightarrow> nat \<Rightarrow> nat option" where
  "token_by_start d start_idx =
     find (\<lambda>j. idx (tokens d ! j) = start_idx) [0..<length (tokens d)]"

definition token_by_end :: "doc \<Rightarrow> nat \<Rightarrow> nat option" where
  "token_by_end d end_idx =
     find (\<lambda>j. idx (tokens d ! j) + length (text_str (tokens d ! j)) = end_idx)
       [0..<length (tokens d)]"

text \<open>
  Modelled from the spec: the character offset at which the range starting at position
  \<open>s\<close> starts, and the one at which the range ending before position \<open>e\<close> ends; both are
  0 outside the document.
\<close>

definition char_start_at :: "doc \<Rightarrow> nat \<Rightarrow> nat" where
  "char_start_at d s = (if s < length (tokens d) then idx (tokens d ! s) else 0)"

definition char_end_at :: "doc \<Rightarrow> nat \<Rightarrow> nat" where
  "char_end_at d e =
     (if 1 \<le> e \<and> e \<le> length (tokens d)
      then idx (tokens d ! (e - 1)) + length (text_str (tokens d ! (e - 1)))
      else 0)"

text \<open>
  Modelled from the spec: the slice \<^verbatim>\<open>doc[start:stop]\<close> (absent from the sources), the
  span over the given positions, cut to the document, without a label.
\<close>

definition doc_slice :: "doc \<Rightarrow> nat \<Rightarrow> nat \<Rightarrow> span" where
  "doc_slice d start stop =
     (let s = min (length (tokens d)) start;
          e = min (length (tokens d)) (max s stop)
      in \<lparr>span_start = s, span_end = e, start_char = char_start_at d s,
          end_char = char_end_at d e, label_str = []\<rparr>)"

text \<open>
  Modelled from the spec: the check a span makes at every access (absent from the
  sources). A span whose range still lies in the document and still has the recorded
  character offsets is kept; otherwise the range is looked up by the offsets. The result
  is the span with the range it has in the document as it is now.
\<close>

definition recalculate_indices :: "doc \<Rightarrow> span \<Rightarrow> error + span" where
  "recalculate_indices d sp =
     (if span_end sp \<le> length (tokens d)
         \<and> char_start_at d (span_start sp) = start_char sp
         \<and> char_end_at d (span_end sp) = end_char sp
      then Inr sp
      else (case token_by_start d (start_char sp) of
              None \<Rightarrow> Inl IndexError
            | Some s \<Rightarrow>
                (case token_by_end d (end_char sp) of
                   None \<Rightarrow> Inl IndexError
                 | Some e \<Rightarrow> Inr (sp\<lparr>span_start := s, span_end := Suc e\<rparr>))))"

text \<open>
  Modelled from the spec: indexing a span (\<^verbatim>\<open>span[i]\<close>, absent from the sources). A
  negative index counts from the end of the span; a position outside the span raises
  \<^verbatim>\<open>IndexError\<close>, so every index does on an empty span. The result is the position
  of the token in the document.
\<close>

definition span_getitem :: "doc \<Rightarrow> span \<Rightarrow> int \<Rightarrow> error + nat" where
  "span_getitem d sp i =
     (case recalculate_indices d sp of
        Inl e \<Rightarrow> Inl e
      | Inr sp' \<Rightarrow>
          (let token_i = (if i < 0 then int (span_end sp') + i else int (span_start sp') + i)
           in if int (span_start sp') \<le> token_i \<and> token_i < int (span_end sp')
                 \<and> token_i < int (length (tokens d))
              then Inr (nat token_i) else Inl IndexError))"

text \<open>
  Modelled from the spec: the number of steps from a token up to the root of its
  sentence (absent from the sources). A root is its own head. The walk gives up, with
  \<^verbatim>\<open>RuntimeError\<close> in the pipeline and \<open>None\<close> here, when it has not reached a root
  within the given number of steps.
\<close>

fun count_words_to_root :: "doc \<Rightarrow> nat \<Rightarrow> nat \<Rightarrow> nat option" where
  "count_words_to_root d 0 j =
     (if j < length (tokens d) \<and> head (tokens d ! j) = j then Some 0 else None)"
| "count_words_to_root d (Suc fuel) j =
     (if j < length (tokens d) then
        (if head (tokens d ! j) = j then Some 0
         else map_option Suc (count_words_to_root d fuel (head (tokens d ! j))))
      else None)"

text \<open>
  Modelled from the spec: the root of a span (\<^verbatim>\<open>span.root\<close>, absent from the sources),
  the token of the span that is highest in the parse tree. A root of a sentence inside
  the span is taken first. Otherwise the tokens whose head lies outside the span are
  compared by their number of steps to the root of the sentence, and the first one with
  the smallest number is taken; the first token of the span when there is none.
\<close>

fun scan_root :: "doc \<Rightarrow> span \<Rightarrow> nat list \<Rightarrow> nat \<Rightarrow> nat option \<Rightarrow> error + nat option" where
  "scan_root d sp [] current_best root = Inr root"
| "scan_root d sp (i # rest) current_best root =
     (if span_start sp \<le> head (tokens d ! i) \<and> head (tokens d ! i) < span_end sp
      then scan_root d sp rest current_best root
      else (case count_words_to_root d (length (tokens d) - 1) i of
              None \<Rightarrow> Inl RuntimeError
            | Some words_to_root \<Rightarrow>
                if words_to_root < current_best
                then scan_root d sp rest words_to_root (Some i)
                else scan_root d sp rest current_best root))"

definition span_root :: "doc \<Rightarrow> span \<Rightarrow> error + nat" where
  "span_root d sp =
     (case recalculate_indices d sp of
        Inl e \<Rightarrow> Inl e
      | Inr sp' \<Rightarrow>
          (case find (\<lambda>i. head (tokens d ! i) = i) [span_start sp'..<span_end sp'] of
             Some r \<Rightarrow> Inr r
           | None \<Rightarrow>
               (case scan_root d sp' [span_start sp'..<span_end sp'] (length (tokens d)) None of
                  Inl e \<Rightarrow> Inl e
                | Inr None \<Rightarrow> Inr (span_start sp')
                | Inr (Some r) \<Rightarrow> Inr r)))"

text \<open>
  Modelled from the spec: the text of a span (\<^verbatim>\<open>span.text\<close>, absent from the sources),
  the concatenation of the surface forms of the covered tokens, each but the last with
  its trailing whitespace. \<open>joined\<close> does this for one attribute of the tokens.
\<close>

definition joined :: "(token \<Rightarrow> string) \<Rightarrow> token list \<Rightarrow> string" where
  "joined f ts =
     (case rev ts of
        [] \<Rightarrow> []
      | t # us \<Rightarrow> concat (map (\<lambda>u. f u @ whitespace_str u) (rev us)) @ f t)"

definition span_text :: "doc \<Rightarrow> span \<Rightarrow> error + string" where
  "span_text d sp =
     (case recalculate_indices d sp of
        Inl e \<Rightarrow> Inl e
      | Inr sp' \<Rightarrow> Inr (joined text_str (map (\<lambda>j. tokens d ! j) [span_start sp'..<span_end sp'])))"

text \<open>
  \<^verbatim>\<open>_span_to_tuple(span)\<close>: the character offset of the first token, the character
  offset behind the last token (\<^verbatim>\<open>len(token)\<close> is the length of its text), the tag of
  the root, the text and the label, read in this order from the document as it is when
  the function is called. The first access that raises ends the function.
\<close>

type_synonym span_tuple = "nat \<times> nat \<times> string \<times> string \<times> string"

definition span_to_tuple :: "doc \<Rightarrow> span \<Rightarrow> error + span_tuple" where
  "span_to_tuple d span =
     (case span_getitem d span 0 of
        Inl e \<Rightarrow> Inl e
      | Inr first \<Rightarrow>
          (case span_getitem d span (- 1) of
             Inl e \<Rightarrow> Inl e
           | Inr lst \<Rightarrow>
               (case span_root d span of
                  Inl e \<Rightarrow> Inl e
                | Inr root \<Rightarrow>
                    (case span_text d span of
                       Inl e \<Rightarrow> Inl e
                     | Inr text \<Rightarrow>
                         (let start = idx (tokens d ! first);
                              end = idx (tokens d ! lst) + length (text_str (tokens d ! lst));
                              tag = tag_str (tokens d ! root);
                              label = label_str span
                          in Inr (start, end, tag, text, label))))))"

text \<open>
  Modelled from the spec: the mutation entry point of the document (\<^verbatim>\<open>doc.merge\<close>,
  absent from the sources). It finds the token that starts at the first character offset
  and the token that ends at the second one, and replaces this range of tokens by a
  single token. The new token takes the part of speech, the dependency label and the
  head of the root of the range, and carries the given tag, text (stored as its lemma)
  and label. The tokens behind the range move down, and every head is renumbered. The
  document stays as it is when no token starts or ends at the given offsets.
\<close>

definition doc_merge :: "doc \<Rightarrow> span_tuple \<Rightarrow> error + doc" where
  "doc_merge d tp =
     (case tp of (start_idx, end_idx, tag, lem, ent_type) \<Rightarrow>
        (case (token_by_start d start_idx, token_by_end d end_idx) of
           (Some s, Some e) \<Rightarrow>
             if s \<le> e then
               (case span_root d (doc_slice d s (Suc e)) of
                  Inl err \<Rightarrow> Inl err
                | Inr root \<Rightarrow>
                    (let covered = map (\<lambda>j. tokens d ! j) [s..<Suc e];
                         merged = (tokens d ! s)
                           \<lparr>text_str := joined text_str covered,
                            lower_str := joined lower_str covered,
                            whitespace_str := whitespace_str (tokens d ! e),
                            lemma_str := lem, pos := pos (tokens d ! root), tag_str := tag,
                            dep_str := dep_str (tokens d ! root),
                            head := head (tokens d ! root), ent_type_str := ent_type\<rparr>;
                         remap = (\<lambda>h. if h < s then h else if h \<le> e then s else h - (e - s))
                     in Inr (d\<lparr>tokens := map (\<lambda>t. t\<lparr>head := remap (head t)\<rparr>)
                                   (take s (tokens d) @ [merged] @ drop (Suc e) (tokens d))\<rparr>)))
             else Inr d
         | _ \<Rightarrow> Inr d))"

text \<open>
  \<^verbatim>\<open>merge_spans(spans, doc)\<close>:
  \<^verbatim>\<open>for span_tuple in (_span_to_tuple(span) for span in spans): doc.merge(*span_tuple)\<close>.
  The loop draws from a generator expression, which asks \<^verbatim>\<open>spans\<close> for its next span
  and computes the tuple of this span only when the loop asks for it, that is after the
  merges of the spans before it. The argument \<^verbatim>\<open>spans\<close> is any iterable: each of its
  items is what the iterable yields from the document as it is when the item is asked
  for. The document is the state of the loop; the result is the list of the tuples
  recorded, the document at the end, and the exception if one was raised.
\<close>

fun merge_spans :: "(doc \<Rightarrow> span) list \<Rightarrow> doc \<Rightarrow> span_tuple list \<times> doc \<times> error option" where
  "merge_spans [] d = ([], d, None)"
| "merge_spans (next_span # spans) d =
     (case span_to_tuple d (next_span d) of
        Inl e \<Rightarrow> ([], d, Some e)
      | Inr span_tuple \<Rightarrow>
          (case doc_merge d span_tuple of
             Inl e \<Rightarrow> ([span_tuple], d, Some e)
           | Inr d' \<Rightarrow>
               (case merge_spans spans d' of
                  (recorded, d'', r) \<Rightarrow> (span_tuple # recorded, d'', r))))"

text \<open>
  Two iterables of spans: a list of spans that were built before the call, and the
  generator \<^verbatim>\<open>(doc[s:e] for s, e in pairs)\<close>, which builds each span when it is asked
  for it.
\<close>

definition built_spans :: "span list \<Rightarrow> (doc \<Rightarrow> span) list" where
  "built_spans sps = map (\<lambda>sp d. sp) sps"

definition lazy_slices :: "(nat \<times> nat) list \<Rightarrow> (doc \<Rightarrow> span) list" where
  "lazy_slices pairs = map (\<lambda>(s, e) d. doc_slice d s e) pairs"

section \<open>A measure for the conjunct loop\<close>

text \<open>
  The weight of the part of the list the loop has not visited yet: a token at position
  \<open>x\<close> of a document of \<open>n\<close> tokens weighs \<open>2 ^ (n - x)\<close>, more than all the tokens behind
  it together.
\<close>

definition conj_weight :: "doc \<Rightarrow> nat list \<Rightarrow> nat \<Rightarrow> nat" where
  "conj_weight d xs k = (\<Sum>x \<leftarrow> drop k xs. 2 ^ (length (tokens d) - x))"

section \<open>Example configuration and documents\<close>

text \<open>A configuration of the three label sets for English dependency labels.\<close>

definition subj_labels :: "string set" where
  "subj_labels = {''agent'', ''csubj'', ''csubjpass'', ''expl'', ''nsubj'', ''nsubjpass''}"

definition obj_labels :: "string set" where
  "obj_labels = {''attr'', ''dobj'', ''dative'', ''oprd''}"

definition aux_labels :: "string set" where
  "aux_labels = {''aux'', ''auxpass'', ''neg''}"

definition mk_token ::
  "string \<Rightarrow> string \<Rightarrow> string \<Rightarrow> nat \<Rightarrow> string \<Rightarrow> pos \<Rightarrow> string \<Rightarrow> string \<Rightarrow> nat \<Rightarrow> token" where
  "mk_token t low ws off lem p tg dp h =
     \<lparr>text_str = t, lower_str = low, whitespace_str = ws, idx = off, lemma_str = lem, pos = p,
      tag_str = tg, dep_str = dp, head = h, ent_type_str = []\<rparr>"

text \<open>\<^verbatim>\<open>Dogs bark\<close>, tagged and parsed.\<close>

definition doc_dogs :: doc where
  "doc_dogs =
     \<lparr>tokens =
        [mk_token ''Dogs'' ''dogs'' '' '' 0 ''dog'' NOUN ''NNS'' ''nsubj'' 1,
         mk_token ''bark'' ''bark'' [] 5 ''bark'' VERB ''VBP'' ''ROOT'' 1],
      is_tagged = True, is_parsed = True\<rparr>"

text \<open>
  \<^verbatim>\<open>Dog chases DOGS\<close>: a capitalised singular noun, whose lemma is its lowercased
  text, a verb, and an upper-case plural noun.
\<close>

definition doc_shout :: doc where
  "doc_shout =
     \<lparr>tokens =
        [mk_token ''Dog'' ''dog'' '' '' 0 ''dog'' NOUN ''NN'' ''nsubj'' 1,
         mk_token ''chases'' ''chases'' '' '' 4 ''chase'' VERB ''VBZ'' ''ROOT'' 1,
         mk_token ''DOGS'' ''dogs'' [] 11 ''dog'' NOUN ''NNS'' ''dobj'' 1],
      is_tagged = True, is_parsed = True\<rparr>"

text \<open>\<^verbatim>\<open>Dogs bark\<close>, tagged but not parsed: every token is its own head.\<close>

definition doc_unparsed :: doc where
  "doc_unparsed =
     \<lparr>tokens =
        [mk_token ''Dogs'' ''dogs'' '' '' 0 ''dog'' NOUN ''NNS'' [] 0,
         mk_token ''bark'' ''bark'' [] 5 ''bark'' VERB ''VBP'' [] 1],
      is_tagged = True, is_parsed = False\<rparr>"

text \<open>\<^verbatim>\<open>She did not run\<close>.\<close>

definition doc_not_run :: doc where
  "doc_not_run =
     \<lparr>tokens =
        [mk_token ''She'' ''she'' '' '' 0 ''she'' PRON ''PRP'' ''nsubj'' 3,
         mk_token ''did'' ''did'' '' '' 4 ''do'' VERB ''VBD'' ''aux'' 3,
         mk_token ''not'' ''not'' '' '' 8 ''not'' ADV ''RB'' ''neg'' 3,
         mk_token ''run'' ''run'' [] 12 ''run'' VERB ''VB'' ''ROOT'' 3],
      is_tagged = True, is_parsed = True\<rparr>"

text \<open>
  \<^verbatim>\<open>Ann, Bob, and Carl left\<close>: \<open>Ann\<close> is the subject of \<open>left\<close>, \<open>Bob\<close> a conjunct of
  \<open>Ann\<close> and \<open>Carl\<close> a conjunct of \<open>Bob\<close>.
\<close>

definition doc_ann :: doc where
  "doc_ann =
     \<lparr>tokens =
        [mk_token ''Ann'' ''ann'' [] 0 ''ann'' PROPN ''NNP'' ''nsubj'' 6,
         mk_token '','' '','' '' '' 3 '','' PUNCT '','' ''punct'' 0,
         mk_token ''Bob'' ''bob'' [] 5 ''bob'' PROPN ''NNP'' ''conj'' 0,
         mk_token '','' '','' '' '' 8 '','' PUNCT '','' ''punct'' 2,
         mk_token ''and'' ''and'' '' '' 10 ''and'' CONJ ''CC'' ''cc'' 2,
         mk_token ''Carl'' ''carl'' '' '' 14 ''carl'' PROPN ''NNP'' ''conj'' 2,
         mk_token ''left'' ''left'' [] 19 ''leave'' VERB ''VBD'' ''ROOT'' 6],
      is_tagged = True, is_parsed = True\<rparr>"

text \<open>\<^verbatim>\<open>She wants to run\<close>: \<open>run\<close> is an open clausal complement of \<open>wants\<close>.\<close>

definition doc_wants :: doc where
  "doc_wants =
     \<lparr>tokens =
        [mk_token ''She'' ''she'' '' '' 0 ''she'' PRON ''PRP'' ''nsubj'' 1,
         mk_token ''wants'' ''wants'' '' '' 4 ''want'' VERB ''VBZ'' ''ROOT'' 1,
         mk_token ''to'' ''to'' '' '' 10 ''to'' PART ''TO'' ''aux'' 3,
         mk_token ''run'' ''run'' [] 13 ''run'' VERB ''VB'' ''xcomp'' 1],
      is_tagged = True, is_parsed = True\<rparr>"

text \<open>
  A verb at position 4 with four left and three right children; on each side one child
  that is no auxiliary stands between two that are.
\<close>

definition doc_aux :: doc where
  "doc_aux =
     \<lparr>tokens =
        [mk_token ''had'' ''had'' '' '' 0 ''have'' VERB ''VBD'' ''aux'' 4,
         mk_token ''also'' ''also'' '' '' 4 ''also'' ADV ''RB'' ''advmod'' 4,
         mk_token ''not'' ''not'' '' '' 9 ''not'' ADV ''RB'' ''neg'' 4,
         mk_token ''been'' ''been'' '' '' 13 ''be'' VERB ''VBN'' ''aux'' 4,
         mk_token ''running'' ''running'' '' '' 18 ''run'' VERB ''VBG'' ''ROOT'' 4,
         mk_token ''not'' ''not'' '' '' 26 ''not'' ADV ''RB'' ''neg'' 4,
         mk_token ''again'' ''again'' '' '' 30 ''again'' ADV ''RB'' ''advmod'' 4,
         mk_token ''been'' ''been'' [] 36 ''be'' VERB ''VBN'' ''aux'' 4],
      is_tagged = True, is_parsed = True\<rparr>"

text \<open>\<^verbatim>\<open>the credit card company\<close>: a determiner and two compound modifiers.\<close>

definition doc_card :: doc where
  "doc_card =
     \<lparr>tokens =
        [mk_token ''the'' ''the'' '' '' 0 ''the'' DET ''DT'' ''det'' 3,
         mk_token ''credit'' ''credit'' '' '' 4 ''credit'' NOUN ''NN'' ''compound'' 3,
         mk_token ''card'' ''card'' '' '' 11 ''card'' NOUN ''NN'' ''compound'' 3,
         mk_token ''company'' ''company'' [] 16 ''company'' NOUN ''NN'' ''ROOT'' 3],
      is_tagged = True, is_parsed = True\<rparr>"

text \<open>
  \<^verbatim>\<open>I love New York more than Los Angeles, honestly\<close>: ten tokens; the names of the
  cities are the two disjoint ranges \<open>[2, 4)\<close> and \<open>[6, 8)\<close>, and the comma hangs off
  \<open>Angeles\<close>.
\<close>

definition doc_cities :: doc where
  "doc_cities =
     \<lparr>tokens =
        [mk_token ''I'' ''i'' '' '' 0 ''i'' PRON ''PRP'' ''nsubj'' 1,
         mk_token ''love'' ''love'' '' '' 2 ''love'' VERB ''VBP'' ''ROOT'' 1,
         mk_token ''New'' ''new'' '' '' 7 ''new'' PROPN ''NNP'' ''compound'' 3,
         mk_token ''York'' ''york'' '' '' 11 ''york'' PROPN ''NNP'' ''dobj'' 1,
         mk_token ''more'' ''more'' '' '' 16 ''more'' ADV ''RBR'' ''advmod'' 1,
         mk_token ''than'' ''than'' '' '' 21 ''than'' ADP ''IN'' ''prep'' 4,
         mk_token ''Los'' ''los'' '' '' 26 ''los'' PROPN ''NNP'' ''compound'' 7,
         mk_token ''Angeles'' ''angeles'' [] 30 ''angeles'' PROPN ''NNP'' ''pobj'' 5,
         mk_token '','' '','' '' '' 37 '','' PUNCT '','' ''punct'' 7,
         mk_token ''honestly'' ''honestly'' [] 39 ''honestly'' ADV ''RB'' ''advmod'' 1],
      is_tagged = True, is_parsed = True\<rparr>"

section \<open>Properties of the classifiers\<close>

lemma children_iff:
  "c \<in> set (children d i) \<longleftrightarrow> c < length (tokens d) \<and> c \<noteq> i \<and> head (tokens d ! c) = i"
  by (auto simp: children_def lefts_def rights_def)

text \<open>
  C7. \<^verbatim>\<open>is_plural_noun\<close> raises \<^verbatim>\<open>ValueError\<close> when the document is not tagged; on a
  tagged document it returns true exactly when the coarse part of speech is \<open>NOUN\<close> and the
  lemma differs from the lowercased surface text, so it returns false for every token that
  is not a noun, whatever its lemma and text are.
\<close>

theorem is_plural_noun_spec:
  "(\<not> is_tagged d \<longrightarrow> is_plural_noun d i = Inl (ValueError ''token is not POS-tagged''))
   \<and> (is_tagged d \<longrightarrow>
        is_plural_noun d i
          = Inr (pos (tokens d ! i) = NOUN
                 \<and> lemma_str (tokens d ! i) \<noteq> lower_str (tokens d ! i)))
   \<and> (is_tagged d \<and> pos (tokens d ! i) \<noteq> NOUN \<longrightarrow> is_plural_noun d i = Inr False)"
  by (simp add: is_plural_noun_def)

theorem is_plural_noun_spec_witness:
  "is_plural_noun (doc_shout\<lparr>is_tagged := False\<rparr>) 0 = Inl (ValueError ''token is not POS-tagged'')
   \<and> is_plural_noun doc_shout 0 = Inr False
   \<and> is_plural_noun doc_shout 1 = Inr False
   \<and> is_plural_noun doc_shout 2 = Inr True"
proof -
  have untagged: "\<not> is_tagged (doc_shout\<lparr>is_tagged := False\<rparr>)"
    by simp
  have tagged: "is_tagged doc_shout"
    by (simp add: doc_shout_def)
  have dog: "\<not> (pos (tokens doc_shout ! 0) = NOUN
      \<and> lemma_str (tokens doc_shout ! 0) \<noteq> lower_str (tokens doc_shout ! 0))"
    and surface: "text_str (tokens doc_shout ! 0) \<noteq> lemma_str (tokens doc_shout ! 0)"
    by (simp_all add: doc_shout_def mk_token_def)
  have chases: "pos (tokens doc_shout ! 1) \<noteq> NOUN
      \<and> lemma_str (tokens doc_shout ! 1) \<noteq> lower_str (tokens doc_shout ! 1)"
    by (simp add: doc_shout_def mk_token_def)
  have dogs: "pos (tokens doc_shout ! 2) = NOUN
      \<and> lemma_str (tokens doc_shout ! 2) \<noteq> lower_str (tokens doc_shout ! 2)"
    by (simp add: doc_shout_def mk_token_def)
  show ?thesis
    using untagged tagged dog chases dogs
      is_plural_noun_spec [of "doc_shout\<lparr>is_tagged := False\<rparr>" 0]
      is_plural_noun_spec [of doc_shout 0] is_plural_noun_spec [of doc_shout 1]
      is_plural_noun_spec [of doc_shout 2]
    by simp
qed

text \<open>
  C8. \<^verbatim>\<open>is_negated_verb\<close> raises \<^verbatim>\<open>ValueError\<close> when the document is not parsed; on a
  parsed document it returns true exactly when the coarse part of speech is \<open>VERB\<close> and
  some token whose head is the given one carries the label \<^verbatim>\<open>neg\<close>. A verb without such
  a child gives false, and gives true once one child labelled \<^verbatim>\<open>neg\<close> is added to the
  document.
\<close>

theorem is_negated_verb_spec:
  "(\<not> is_parsed d \<longrightarrow> is_negated_verb d i = Inl (ValueError ''token is not parsed''))
   \<and> (is_parsed d \<longrightarrow>
        is_negated_verb d i
          = Inr (pos (tokens d ! i) = VERB
                 \<and> (\<exists>c < length (tokens d).
                       c \<noteq> i \<and> head (tokens d ! c) = i \<and> dep_str (tokens d ! c) = ''neg'')))
   \<and> (is_parsed d \<and> i < length (tokens d) \<and> pos (tokens d ! i) = VERB
        \<and> (\<forall>c \<in> set (children d i). dep_str (tokens d ! c) \<noteq> ''neg'') \<longrightarrow>
        is_negated_verb d i = Inr False
        \<and> is_negated_verb (d\<lparr>tokens := tokens d @ [t\<lparr>head := i, dep_str := ''neg''\<rparr>]\<rparr>) i
            = Inr True)"
proof (intro conjI impI)
  assume "\<not> is_parsed d"
  then show "is_negated_verb d i = Inl (ValueError ''token is not parsed'')"
    by (simp add: is_negated_verb_def)
next
  assume "is_parsed d"
  then show "is_negated_verb d i
    = Inr (pos (tokens d ! i) = VERB
           \<and> (\<exists>c < length (tokens d).
                 c \<noteq> i \<and> head (tokens d ! c) = i \<and> dep_str (tokens d ! c) = ''neg''))"
    by (auto simp: is_negated_verb_def list_ex_iff children_iff)
next
  assume a: "is_parsed d \<and> i < length (tokens d) \<and> pos (tokens d ! i) = VERB
    \<and> (\<forall>c \<in> set (children d i). dep_str (tokens d ! c) \<noteq> ''neg'')"
  then show "is_negated_verb d i = Inr False"
    by (simp add: is_negated_verb_def list_ex_iff)
  let ?d = "d\<lparr>tokens := tokens d @ [t\<lparr>head := i, dep_str := ''neg''\<rparr>]\<rparr>"
  have "length (tokens d) \<in> set (children ?d i)"
    using a by (simp add: children_iff)
  moreover have "dep_str (tokens ?d ! length (tokens d)) = ''neg''"
    by simp
  ultimately have "list_ex (\<lambda>c. dep_str (tokens ?d ! c) = ''neg'') (children ?d i)"
    unfolding list_ex_iff by blast
  moreover have "tokens ?d ! i = tokens d ! i"
    using a by (simp add: nth_append)
  ultimately show "is_negated_verb ?d i = Inr True"
    using a by (simp add: is_negated_verb_def)
qed

theorem is_negated_verb_spec_witness:
  "is_negated_verb (doc_not_run\<lparr>is_parsed := False\<rparr>) 3 = Inl (ValueError ''token is not parsed'')
   \<and> is_negated_verb doc_dogs 1 = Inr False
   \<and> is_negated_verb
        (doc_dogs\<lparr>tokens := tokens doc_dogs
            @ [(mk_token ''never'' ''never'' [] 10 ''never'' ADV ''RB'' ''advmod'' 2)
                 \<lparr>head := 1, dep_str := ''neg''\<rparr>]\<rparr>) 1
       = Inr True"
proof -
  have unparsed: "\<not> is_parsed (doc_not_run\<lparr>is_parsed := False\<rparr>)"
    by simp
  have verb: "is_parsed doc_dogs \<and> 1 < length (tokens doc_dogs)
    \<and> pos (tokens doc_dogs ! 1) = VERB
    \<and> (\<forall>c \<in> set (children doc_dogs 1). dep_str (tokens doc_dogs ! c) \<noteq> ''neg'')"
    by (simp add: doc_dogs_def mk_token_def children_def lefts_def rights_def)
  show ?thesis
    using unparsed verb
      is_negated_verb_spec [of "doc_not_run\<lparr>is_parsed := False\<rparr>" 3]
      is_negated_verb_spec
        [of doc_dogs 1 "mk_token ''never'' ''never'' [] 10 ''never'' ADV ''RB'' ''advmod'' 2"]
    by blast
qed

section \<open>Properties of the span boundaries\<close>

lemma count_ones: "(\<Sum>_ \<leftarrow> xs. (1::int)) = int (length xs)"
  by (simp add: sum_list_triv)

lemma takeWhile_count:
  "length (takeWhile P xs) \<le> length xs
   \<and> (\<forall>k < length (takeWhile P xs). P (xs ! k))
   \<and> (length (takeWhile P xs) < length xs \<longrightarrow> \<not> P (xs ! length (takeWhile P xs)))"
proof (intro conjI allI impI)
  show "length (takeWhile P xs) \<le> length xs"
    by (rule length_takeWhile_le)
next
  fix k assume k: "k < length (takeWhile P xs)"
  then have "takeWhile P xs ! k \<in> set (takeWhile P xs)"
    by simp
  then have "P (takeWhile P xs ! k)"
    by (auto dest: set_takeWhileD)
  then show "P (xs ! k)"
    using k by (simp add: takeWhile_nth)
next
  assume "length (takeWhile P xs) < length xs"
  then show "\<not> P (xs ! length (takeWhile P xs))"
    by (rule nth_length_takeWhile)
qed

lemma takeWhile_count_rev:
  "length (takeWhile P (rev xs)) \<le> length xs
   \<and> (\<forall>k < length (takeWhile P (rev xs)). P (xs ! (length xs - 1 - k)))
   \<and> (length (takeWhile P (rev xs)) < length xs
        \<longrightarrow> \<not> P (xs ! (length xs - 1 - length (takeWhile P (rev xs)))))"
proof -
  let ?c = "length (takeWhile P (rev xs))"
  have c: "?c \<le> length xs"
    using length_takeWhile_le [of P "rev xs"] by simp
  have "\<forall>k < ?c. P (rev xs ! k)"
    using takeWhile_count [of P "rev xs"] by blast
  then have a: "\<forall>k < ?c. P (xs ! (length xs - 1 - k))"
    using c by (auto simp: rev_nth)
  have "?c < length (rev xs) \<longrightarrow> \<not> P (rev xs ! ?c)"
    using takeWhile_count [of P "rev xs"] by blast
  then have b: "?c < length xs \<longrightarrow> \<not> P (xs ! (length xs - 1 - ?c))"
    by (auto simp: rev_nth)
  show ?thesis using a b c by blast
qed

lemma lefts_sorted: "sorted_wrt (<) (lefts d i)"
  unfolding lefts_def by (simp add: sorted_wrt_filter)

lemma lefts_less: "j \<in> set (lefts d i) \<Longrightarrow> j < i"
  by (simp add: lefts_def)

text \<open>
  C5. \<^verbatim>\<open>get_span_for_verb_auxiliaries\<close> returns the position of the verb minus a count
  \<open>cl\<close> and the position of the verb plus a count \<open>cr\<close>. The \<open>cl\<close> left children nearest
  to the verb all carry a label of \<^verbatim>\<open>AUX_DEPS\<close>, and the next one further left, if there
  is one, does not; the same holds for the first \<open>cr\<close> right children. So a child that is
  no auxiliary, with only auxiliaries between it and the verb, ends the count: the
  auxiliaries beyond it are not counted.
\<close>

theorem get_span_for_verb_auxiliaries_spec:
  "(\<exists>cl cr. get_span_for_verb_auxiliaries AUX_DEPS d v = (int v - int cl, int v + int cr)
      \<and> cl \<le> length (lefts d v)
      \<and> (\<forall>k < cl. dep_str (tokens d ! (lefts d v ! (length (lefts d v) - 1 - k))) \<in> AUX_DEPS)
      \<and> (cl < length (lefts d v)
           \<longrightarrow> dep_str (tokens d ! (lefts d v ! (length (lefts d v) - 1 - cl))) \<notin> AUX_DEPS)
      \<and> cr \<le> length (rights d v)
      \<and> (\<forall>k < cr. dep_str (tokens d ! (rights d v ! k)) \<in> AUX_DEPS)
      \<and> (cr < length (rights d v) \<longrightarrow> dep_str (tokens d ! (rights d v ! cr)) \<notin> AUX_DEPS))
   \<and> (lefts d v = ls @ x # cs \<and> dep_str (tokens d ! x) \<notin> AUX_DEPS
        \<and> (\<forall>c \<in> set cs. dep_str (tokens d ! c) \<in> AUX_DEPS)
        \<longrightarrow> fst (get_span_for_verb_auxiliaries AUX_DEPS d v) = int v - int (length cs))
   \<and> (rights d v = rs @ y # ts \<and> dep_str (tokens d ! y) \<notin> AUX_DEPS
        \<and> (\<forall>c \<in> set rs. dep_str (tokens d ! c) \<in> AUX_DEPS)
        \<longrightarrow> snd (get_span_for_verb_auxiliaries AUX_DEPS d v) = int v + int (length rs))"
proof (intro conjI impI)
  let ?P = "\<lambda>x. dep_str (tokens d ! x) \<in> AUX_DEPS"
  let ?cl = "length (takeWhile ?P (rev (lefts d v)))"
  let ?cr = "length (takeWhile ?P (rights d v))"
  have "get_span_for_verb_auxiliaries AUX_DEPS d v = (int v - int ?cl, int v + int ?cr)"
    by (simp add: get_span_for_verb_auxiliaries_def count_ones)
  then show "\<exists>cl cr. get_span_for_verb_auxiliaries AUX_DEPS d v = (int v - int cl, int v + int cr)
      \<and> cl \<le> length (lefts d v)
      \<and> (\<forall>k < cl. dep_str (tokens d ! (lefts d v ! (length (lefts d v) - 1 - k))) \<in> AUX_DEPS)
      \<and> (cl < length (lefts d v)
           \<longrightarrow> dep_str (tokens d ! (lefts d v ! (length (lefts d v) - 1 - cl))) \<notin> AUX_DEPS)
      \<and> cr \<le> length (rights d v)
      \<and> (\<forall>k < cr. dep_str (tokens d ! (rights d v ! k)) \<in> AUX_DEPS)
      \<and> (cr < length (rights d v) \<longrightarrow> dep_str (tokens d ! (rights d v ! cr)) \<notin> AUX_DEPS)"
    using takeWhile_count_rev [of ?P "lefts d v"] takeWhile_count [of ?P "rights d v"]
    by blast
next
  assume "lefts d v = ls @ x # cs \<and> dep_str (tokens d ! x) \<notin> AUX_DEPS
    \<and> (\<forall>c \<in> set cs. dep_str (tokens d ! c) \<in> AUX_DEPS)"
  then show "fst (get_span_for_verb_auxiliaries AUX_DEPS d v) = int v - int (length cs)"
    by (simp add: get_span_for_verb_auxiliaries_def count_ones takeWhile_append)
next
  assume "rights d v = rs @ y # ts \<and> dep_str (tokens d ! y) \<notin> AUX_DEPS
    \<and> (\<forall>c \<in> set rs. dep_str (tokens d ! c) \<in> AUX_DEPS)"
  then show "snd (get_span_for_verb_auxiliaries AUX_DEPS d v) = int v + int (length rs)"
    by (simp add: get_span_for_verb_auxiliaries_def count_ones takeWhile_append)
qed

theorem get_span_for_verb_auxiliaries_spec_witness:
  "get_span_for_verb_auxiliaries aux_labels doc_aux 4 = (2, 5)"
proof -
  have l: "lefts doc_aux 4 = [0] @ 1 # [2, 3]
      \<and> dep_str (tokens doc_aux ! 1) \<notin> aux_labels
      \<and> (\<forall>c \<in> set [2, 3]. dep_str (tokens doc_aux ! c) \<in> aux_labels)"
    by code_simp
  have r: "rights doc_aux 4 = [5] @ 6 # [7]
      \<and> dep_str (tokens doc_aux ! 6) \<notin> aux_labels
      \<and> (\<forall>c \<in> set [5]. dep_str (tokens doc_aux ! c) \<in> aux_labels)"
    by code_simp
  have "fst (get_span_for_verb_auxiliaries aux_labels doc_aux 4) = int 4 - int (length [2, 3::nat])
      \<and> snd (get_span_for_verb_auxiliaries aux_labels doc_aux 4) = int 4 + int (length [5::nat])"
    using l r
      get_span_for_verb_auxiliaries_spec
        [where AUX_DEPS = aux_labels and d = doc_aux and v = 4 and ls = "[0]" and x = 1
           and cs = "[2, 3]" and rs = "[5]" and y = 6 and ts = "[7]"]
    by blast
  then show ?thesis
    by (simp add: prod_eq_iff)
qed

text \<open>
  C6. \<^verbatim>\<open>get_span_for_compound_noun\<close> returns the position of the noun minus a count
  \<open>c\<close>, and the position of the noun. The \<open>c\<close> left children nearest to the noun all carry
  the label \<^verbatim>\<open>compound\<close>, and the next one further left, if there is one, does not.
  When the three left children nearest to the noun are a determiner and two compounds,
  the span starts two positions before the noun, so it covers three tokens, and the
  determiner lies before it.
\<close>

theorem get_span_for_compound_noun_spec:
  "(\<exists>c. get_span_for_compound_noun d noun = (int noun - int c, int noun)
      \<and> c \<le> length (lefts d noun)
      \<and> (\<forall>k < c. dep_str (tokens d ! (lefts d noun ! (length (lefts d noun) - 1 - k)))
                    = ''compound'')
      \<and> (c < length (lefts d noun)
           \<longrightarrow> dep_str (tokens d ! (lefts d noun ! (length (lefts d noun) - 1 - c)))
                 \<noteq> ''compound''))
   \<and> (lefts d noun = ls @ [t, c1, c2] \<and> dep_str (tokens d ! t) = ''det''
        \<and> dep_str (tokens d ! c1) = ''compound'' \<and> dep_str (tokens d ! c2) = ''compound''
        \<longrightarrow> get_span_for_compound_noun d noun = (int noun - 2, int noun)
            \<and> int t < int noun - 2)"
proof (intro conjI impI)
  let ?P = "\<lambda>x. dep_str (tokens d ! x) = ''compound''"
  let ?c = "length (takeWhile ?P (rev (lefts d noun)))"
  have "get_span_for_compound_noun d noun = (int noun - int ?c, int noun)"
    by (simp add: get_span_for_compound_noun_def count_ones)
  then show "\<exists>c. get_span_for_compound_noun d noun = (int noun - int c, int noun)
      \<and> c \<le> length (lefts d noun)
      \<and> (\<forall>k < c. dep_str (tokens d ! (lefts d noun ! (length (lefts d noun) - 1 - k)))
                    = ''compound'')
      \<and> (c < length (lefts d noun)
           \<longrightarrow> dep_str (tokens d ! (lefts d noun ! (length (lefts d noun) - 1 - c)))
                 \<noteq> ''compound'')"
    using takeWhile_count_rev [of ?P "lefts d noun"] by blast
next
  assume a: "lefts d noun = ls @ [t, c1, c2] \<and> dep_str (tokens d ! t) = ''det''
    \<and> dep_str (tokens d ! c1) = ''compound'' \<and> dep_str (tokens d ! c2) = ''compound''"
  then show "get_span_for_compound_noun d noun = (int noun - 2, int noun)"
    by (simp add: get_span_for_compound_noun_def count_ones)
  have "sorted_wrt (<) (ls @ [t, c1, c2])"
    using a lefts_sorted [of d noun] by simp
  then have "t < c1" "c1 < c2"
    by (simp_all add: sorted_wrt_append)
  moreover have "c2 \<in> set (lefts d noun)"
    using a by simp
  then have "c2 < noun"
    by (rule lefts_less)
  ultimately show "int t < int noun - 2"
    by arith
qed

theorem get_span_for_compound_noun_spec_witness:
  "get_span_for_compound_noun doc_card 3 = (1, 3) \<and> int 0 < int 3 - 2"
proof -
  have "lefts doc_card 3 = [] @ [0, 1, 2] \<and> dep_str (tokens doc_card ! 0) = ''det''
      \<and> dep_str (tokens doc_card ! 1) = ''compound''
      \<and> dep_str (tokens doc_card ! 2) = ''compound''"
    by code_simp
  then have "get_span_for_compound_noun doc_card 3 = (int 3 - 2, int 3) \<and> int 0 < int 3 - 2"
    using get_span_for_compound_noun_spec
      [where d = doc_card and noun = 3 and ls = "[]" and t = 0 and ?c1.0 = 1 and ?c2.0 = 2]
    by blast
  then show ?thesis
    by simp
qed

text \<open>
  C10. Both spans bracket the head token. The span of a compound noun ends at the noun
  and starts at or before it, at most as many positions before it as the noun has left
  children. The span of a verb starts at or before the verb and ends at or behind it,
  at most as many positions away as the verb has left and right children.
\<close>

theorem span_brackets_head:
  "fst (get_span_for_compound_noun d noun) \<le> int noun
   \<and> snd (get_span_for_compound_noun d noun) = int noun
   \<and> int noun - fst (get_span_for_compound_noun d noun) \<le> int (length (lefts d noun))
   \<and> fst (get_span_for_verb_auxiliaries AUX_DEPS d verb) \<le> int verb
   \<and> int verb \<le> snd (get_span_for_verb_auxiliaries AUX_DEPS d verb)
   \<and> int verb - fst (get_span_for_verb_auxiliaries AUX_DEPS d verb) \<le> int (length (lefts d verb))
   \<and> snd (get_span_for_verb_auxiliaries AUX_DEPS d verb) - int verb \<le> int (length (rights d verb))"
proof -
  have "length (takeWhile P (rev (lefts d i))) \<le> length (lefts d i)" for P i
    using length_takeWhile_le [of P "rev (lefts d i)"] by simp
  moreover have "length (takeWhile P (rights d i)) \<le> length (rights d i)" for P i
    by (rule length_takeWhile_le)
  ultimately show ?thesis
    by (simp add: get_span_for_compound_noun_def get_span_for_verb_auxiliaries_def count_ones)
qed

section \<open>Properties of the conjunct loop\<close>

lemma weight_upt:
  "a \<le> n \<Longrightarrow> (\<Sum>j \<leftarrow> filter Q [a..<n]. (2::nat) ^ (n - j)) < 2 ^ Suc (n - a)"
proof (induction "n - a" arbitrary: a)
  case 0
  then show ?case by simp
next
  case (Suc m)
  then have a: "a < n" and m: "m = n - Suc a" and le: "Suc a \<le> n"
    by arith+
  have ih: "(\<Sum>j \<leftarrow> filter Q [Suc a..<n]. (2::nat) ^ (n - j)) < 2 ^ Suc (n - Suc a)"
    using Suc.hyps(1) [OF m le] .
  have eq: "Suc (n - Suc a) = n - a"
    using a by arith
  have "(\<Sum>j \<leftarrow> filter Q [a..<n]. (2::nat) ^ (n - j))
      \<le> 2 ^ (n - a) + (\<Sum>j \<leftarrow> filter Q [Suc a..<n]. (2::nat) ^ (n - j))"
    using a by (simp add: upt_conv_Cons)
  also have "\<dots> < 2 ^ (n - a) + 2 ^ (n - a)"
    using ih unfolding eq by simp
  finally show ?case by simp
qed

lemma filter_upt_above:
  assumes "\<And>j. Q j \<Longrightarrow> x < j" and "x < n"
  shows "filter Q [0..<n] = filter Q [Suc x..<n]"
proof -
  have split: "[0..<n] = [0..<Suc x] @ [Suc x..<n]"
    using upt_add_eq_append [of 0 "Suc x" "n - Suc x"] assms(2) by simp
  have "\<not> Q j" if "j \<in> set [0..<Suc x]" for j
    using assms(1) [of j] that by auto
  then have none: "filter Q [0..<Suc x] = []"
    unfolding filter_empty_conv by blast
  have "filter Q [0..<n] = filter Q ([0..<Suc x] @ [Suc x..<n])"
    using split by (rule arg_cong)
  also have "\<dots> = filter Q [0..<Suc x] @ filter Q [Suc x..<n]"
    by (rule filter_append)
  also have "\<dots> = filter Q [Suc x..<n]"
    unfolding none by (rule append_Nil)
  finally show ?thesis .
qed

lemma get_conjuncts_filter:
  "get_conjuncts d x
     = filter (\<lambda>j. (x < j \<and> head (tokens d ! j) = x) \<and> dep_str (tokens d ! j) = ''conj'')
         [0..<length (tokens d)]"
  by (simp add: get_conjuncts_def rights_def conj_commute)

lemma get_conjuncts_weight:
  "(\<Sum>c \<leftarrow> get_conjuncts d x. (2::nat) ^ (length (tokens d) - c)) < 2 ^ (length (tokens d) - x)"
proof (cases "x < length (tokens d)")
  case True
  let ?Q = "\<lambda>j. (x < j \<and> head (tokens d ! j) = x) \<and> dep_str (tokens d ! j) = ''conj''"
  have "get_conjuncts d x = filter ?Q [Suc x..<length (tokens d)]"
    unfolding get_conjuncts_filter using True by (intro filter_upt_above) auto
  moreover have "Suc (length (tokens d) - Suc x) = length (tokens d) - x"
    using True by arith
  ultimately show ?thesis
    using weight_upt [of "Suc x" "length (tokens d)" ?Q] True by simp
next
  case False
  then have "get_conjuncts d x = []"
    unfolding get_conjuncts_filter by (auto simp: filter_empty_conv)
  then show ?thesis by simp
qed

lemma conj_weight_decreases:
  assumes "k < length xs"
  shows "conj_weight d (xs @ get_conjuncts d (xs ! k)) (Suc k) < conj_weight d xs k"
proof -
  have "drop k xs = xs ! k # drop (Suc k) xs"
    using assms by (simp add: Cons_nth_drop_Suc)
  then have "conj_weight d xs k
      = 2 ^ (length (tokens d) - xs ! k) + (\<Sum>x \<leftarrow> drop (Suc k) xs. 2 ^ (length (tokens d) - x))"
    by (simp add: conj_weight_def)
  moreover have "conj_weight d (xs @ get_conjuncts d (xs ! k)) (Suc k)
      = (\<Sum>x \<leftarrow> drop (Suc k) xs. 2 ^ (length (tokens d) - x))
        + (\<Sum>c \<leftarrow> get_conjuncts d (xs ! k). 2 ^ (length (tokens d) - c))"
    using assms by (simp add: conj_weight_def)
  ultimately show ?thesis
    using get_conjuncts_weight [of d "xs ! k"] by simp
qed

lemma extend_conjuncts_rule:
  assumes step: "\<And>xs k. I xs k \<Longrightarrow> k < length xs \<Longrightarrow> I (xs @ get_conjuncts d (xs ! k)) (Suc k)"
  shows "I xs k \<Longrightarrow> \<exists>ys k'. extend_conjuncts d xs k = Some ys \<and> length ys \<le> k' \<and> I ys k'"
proof (induction "conj_weight d xs k" arbitrary: xs k rule: less_induct)
  case less
  show ?case
  proof (cases "k < length xs")
    case True
    have "\<exists>ys k'. extend_conjuncts d (xs @ get_conjuncts d (xs ! k)) (Suc k) = Some ys
        \<and> length ys \<le> k' \<and> I ys k'"
      using conj_weight_decreases [OF True] step [OF less.prems True] by (rule less.hyps)
    then show ?thesis
      using True by (subst extend_conjuncts.simps) simp
  next
    case False
    then have "extend_conjuncts d xs k = Some xs"
      by (subst extend_conjuncts.simps) simp
    moreover have "length xs \<le> k"
      using False by simp
    ultimately show ?thesis
      using less.prems by blast
  qed
qed

lemma extend_conjuncts_returns: "\<exists>ys. extend_conjuncts d xs k = Some ys"
  using extend_conjuncts_rule [of "\<lambda>_ _. True" d xs k] by blast

lemma extend_conjuncts_order:
  "\<exists>ys. extend_conjuncts d xs 0 = Some ys \<and> ys = xs @ concat (map (get_conjuncts d) ys)"
proof -
  let ?I = "\<lambda>zs k. k \<le> length zs \<and> zs = xs @ concat (map (get_conjuncts d) (take k zs))"
  have "\<exists>ys k'. extend_conjuncts d xs 0 = Some ys \<and> length ys \<le> k' \<and> ?I ys k'"
  proof (rule extend_conjuncts_rule)
    show "?I xs 0" by simp
  next
    fix zs k
    assume inv: "?I zs k" and k: "k < length zs"
    have "take (Suc k) (zs @ get_conjuncts d (zs ! k)) = take k zs @ [zs ! k]"
      using k by (simp add: take_Suc_conv_app_nth)
    then show "?I (zs @ get_conjuncts d (zs ! k)) (Suc k)"
      using inv k by simp
  qed
  then obtain ys k' where r: "extend_conjuncts d xs 0 = Some ys" "length ys \<le> k'"
      "k' \<le> length ys" "ys = xs @ concat (map (get_conjuncts d) (take k' ys))"
    by blast
  then have "take k' ys = ys" by simp
  then show ?thesis using r by metis
qed

lemma get_conjuncts_greater: "c \<in> set (get_conjuncts d a) \<Longrightarrow> a < c"
  by (simp add: get_conjuncts_def rights_def)

lemma get_conjuncts_head: "c \<in> set (get_conjuncts d a) \<Longrightarrow> head (tokens d ! c) = a"
  by (simp add: get_conjuncts_def rights_def)

lemma distinct_get_conjuncts: "distinct (get_conjuncts d a)"
  by (simp add: get_conjuncts_def rights_def)

lemma set_fixed_point:
  assumes "ys = xs @ concat (map (get_conjuncts d) ys)"
  shows "set ys = set xs \<union> (\<Union>a \<in> set ys. set (get_conjuncts d a))"
proof -
  have "set ys = set (xs @ concat (map (get_conjuncts d) ys))"
    using assms by (rule arg_cong)
  also have "\<dots> = set xs \<union> (\<Union>a \<in> set ys. set (get_conjuncts d a))"
    by simp
  finally show ?thesis .
qed

lemma conjunct_closure:
  assumes "ys = xs @ concat (map (get_conjuncts d) ys)"
  shows "set ys = {t. \<exists>s \<in> set xs. (s, t) \<in> {(a, b). b \<in> set (get_conjuncts d a)}\<^sup>*}"
proof -
  let ?R = "{(a, b). b \<in> set (get_conjuncts d a)}"
  note fp = set_fixed_point [OF assms]
  have sound: "y \<in> set ys \<Longrightarrow> \<exists>s \<in> set xs. (s, y) \<in> ?R\<^sup>*" for y
  proof (induction y rule: less_induct)
    case (less y)
    then have "y \<in> set xs \<or> (\<exists>a \<in> set ys. y \<in> set (get_conjuncts d a))"
      using fp by blast
    then show ?case
    proof
      assume "y \<in> set xs"
      then show ?thesis by blast
    next
      assume "\<exists>a \<in> set ys. y \<in> set (get_conjuncts d a)"
      then obtain a where a: "a \<in> set ys" "y \<in> set (get_conjuncts d a)"
        by blast
      then have "a < y"
        by (simp add: get_conjuncts_greater)
      then obtain s where "s \<in> set xs" "(s, a) \<in> ?R\<^sup>*"
        using less.IH a(1) by blast
      moreover have "(a, y) \<in> ?R"
        using a(2) by simp
      ultimately show ?thesis
        by (meson rtrancl.rtrancl_into_rtrancl)
    qed
  qed
  have complete: "(s, t) \<in> ?R\<^sup>* \<Longrightarrow> s \<in> set ys \<Longrightarrow> t \<in> set ys" for s t
  proof (induction rule: rtrancl_induct)
    case base
    then show ?case .
  next
    case (step b c)
    then have "b \<in> set ys" "c \<in> set (get_conjuncts d b)"
      by simp_all
    then show ?case
      using fp by blast
  qed
  have "set xs \<subseteq> set ys"
    using fp by blast
  then show ?thesis
    using sound complete by blast
qed

lemma nth_notin_take: "distinct xs \<Longrightarrow> k < length xs \<Longrightarrow> xs ! k \<notin> set (take k xs)"
proof -
  assume d: "distinct xs" and k: "k < length xs"
  have "xs = take k xs @ xs ! k # drop (Suc k) xs"
    using k by (simp add: id_take_nth_drop)
  then have "distinct (take k xs @ xs ! k # drop (Suc k) xs)"
    using d by simp
  then show ?thesis by simp
qed

lemma extend_conjuncts_distinct:
  assumes "distinct xs" and "\<forall>x \<in> set xs. v < x \<and> head (tokens d ! x) = v"
    and "extend_conjuncts d xs 0 = Some ys"
  shows "distinct ys"
proof -
  let ?I = "\<lambda>zs k. distinct zs \<and> (\<forall>x \<in> set zs. v < x)
    \<and> (\<forall>x \<in> set zs. head (tokens d ! x) = v \<or> head (tokens d ! x) \<in> set (take k zs))"
  have "\<exists>ys k'. extend_conjuncts d xs 0 = Some ys \<and> length ys \<le> k' \<and> ?I ys k'"
  proof (rule extend_conjuncts_rule)
    show "?I xs 0" using assms(1,2) by simp
  next
    fix zs k
    assume inv: "?I zs k" and k: "k < length zs"
    let ?x = "zs ! k" and ?cs = "get_conjuncts d (zs ! k)"
    have x: "?x \<in> set zs" "v < ?x" "?x \<notin> set (take k zs)"
      using inv k by (simp_all add: nth_notin_take)
    have fresh: "c \<notin> set zs" if "c \<in> set ?cs" for c
    proof
      assume "c \<in> set zs"
      then have "head (tokens d ! c) = v \<or> head (tokens d ! c) \<in> set (take k zs)"
        using inv by blast
      moreover have "head (tokens d ! c) = ?x"
        using that by (rule get_conjuncts_head)
      ultimately have "?x = v \<or> ?x \<in> set (take k zs)"
        by simp
      then show False
        using x(2,3) by blast
    qed
    have tk: "take (Suc k) (zs @ ?cs) = take k zs @ [?x]"
      using k by (simp add: take_Suc_conv_app_nth)
    have 1: "distinct (zs @ ?cs)"
      using inv fresh by (auto simp: distinct_get_conjuncts)
    have 2: "\<forall>c \<in> set (zs @ ?cs). v < c"
      using inv x(2) by (auto dest: get_conjuncts_greater)
    have 3: "\<forall>c \<in> set (zs @ ?cs). head (tokens d ! c) = v
        \<or> head (tokens d ! c) \<in> set (take (Suc k) (zs @ ?cs))"
      unfolding tk using inv by (auto dest: get_conjuncts_head)
    show "?I (zs @ ?cs) (Suc k)"
      using 1 2 3 by blast
  qed
  then show ?thesis
    using assms(3) by auto
qed

lemma extend_conjuncts_cong:
  assumes "\<And>x. get_conjuncts d' x = get_conjuncts d x"
  shows "extend_conjuncts d' xs k = extend_conjuncts d xs k"
proof -
  let ?I = "\<lambda>zs j. extend_conjuncts d' zs j = extend_conjuncts d' xs k"
  have "\<exists>ys k'. extend_conjuncts d xs k = Some ys \<and> length ys \<le> k' \<and> ?I ys k'"
  proof (rule extend_conjuncts_rule)
    show "?I xs k" by simp
  next
    fix zs j
    assume inv: "?I zs j" and j: "j < length zs"
    have "extend_conjuncts d' zs j = extend_conjuncts d' (zs @ get_conjuncts d' (zs ! j)) (Suc j)"
      using j by (subst extend_conjuncts.simps) simp
    then show "?I (zs @ get_conjuncts d (zs ! j)) (Suc j)"
      using inv assms by simp
  qed
  then obtain ys k' where r: "extend_conjuncts d xs k = Some ys" "length ys \<le> k'"
      "extend_conjuncts d' ys k' = extend_conjuncts d' xs k"
    by blast
  have "extend_conjuncts d' ys k' = Some ys"
    using r(2) by (subst extend_conjuncts.simps) simp
  then show ?thesis
    using r by simp
qed

lemma rights_greater: "j \<in> set (rights d i) \<Longrightarrow> i < j \<and> head (tokens d ! j) = i"
  by (simp add: rights_def)

lemma get_conjuncts_flag [simp]: "get_conjuncts (d\<lparr>is_parsed := b\<rparr>) x = get_conjuncts d x"
  by (simp add: get_conjuncts_def rights_def)

text \<open>
  C2. \<^verbatim>\<open>get_subjects_of_verb\<close> returns a list \<open>ys\<close> that starts with the seeds, the left
  children of the verb labelled in \<^verbatim>\<open>SUBJ_DEPS\<close>, in document order, followed by the
  conjuncts of \<open>ys[0]\<close>, then those of \<open>ys[1]\<close>, and so on through the whole of \<open>ys\<close>: this
  is the order of discovery, and \<open>ys\<close> is a fixed point. Its elements are exactly the
  tokens reachable from a seed by following conjuncts any number of times. For a seed
  \<open>a\<close>, a conjunct \<open>b\<close> of \<open>a\<close> and a conjunct \<open>c\<close> of \<open>b\<close>, all three are returned.
\<close>

theorem get_subjects_of_verb_closure:
  "\<exists>ys. get_subjects_of_verb SUBJ_DEPS d v = Some ys
     \<and> ys = [t \<leftarrow> lefts d v. dep_str (tokens d ! t) \<in> SUBJ_DEPS]
            @ concat (map (get_conjuncts d) ys)
     \<and> sorted_wrt (<) [t \<leftarrow> lefts d v. dep_str (tokens d ! t) \<in> SUBJ_DEPS]
     \<and> set ys = {t. \<exists>s \<in> set [t \<leftarrow> lefts d v. dep_str (tokens d ! t) \<in> SUBJ_DEPS].
                     (s, t) \<in> {(a, b). b \<in> set (get_conjuncts d a)}\<^sup>*}
     \<and> (a \<in> set (lefts d v) \<and> dep_str (tokens d ! a) \<in> SUBJ_DEPS
          \<and> b \<in> set (get_conjuncts d a) \<and> c \<in> set (get_conjuncts d b)
          \<longrightarrow> a \<in> set ys \<and> b \<in> set ys \<and> c \<in> set ys)"
proof -
  let ?seeds = "[t \<leftarrow> lefts d v. dep_str (tokens d ! t) \<in> SUBJ_DEPS]"
  obtain ys where ys: "extend_conjuncts d ?seeds 0 = Some ys"
      and fp: "ys = ?seeds @ concat (map (get_conjuncts d) ys)"
    using extend_conjuncts_order [of d ?seeds] by blast
  have 1: "get_subjects_of_verb SUBJ_DEPS d v = Some ys"
    using ys by (simp add: get_subjects_of_verb_def)
  have 2: "sorted_wrt (<) ?seeds"
    using lefts_sorted [of d v] by (rule sorted_wrt_filter)
  have 3: "set ys = {t. \<exists>s \<in> set ?seeds. (s, t) \<in> {(a, b). b \<in> set (get_conjuncts d a)}\<^sup>*}"
    using fp by (rule conjunct_closure)
  note su = set_fixed_point [OF fp]
  have 4: "a \<in> set ys \<and> b \<in> set ys \<and> c \<in> set ys"
    if h: "a \<in> set (lefts d v) \<and> dep_str (tokens d ! a) \<in> SUBJ_DEPS
      \<and> b \<in> set (get_conjuncts d a) \<and> c \<in> set (get_conjuncts d b)"
  proof -
    have "a \<in> set ?seeds"
      using h by simp
    then have a: "a \<in> set ys"
      using su by blast
    then have b: "b \<in> set ys"
      using h su by blast
    then have "c \<in> set ys"
      using h su by blast
    then show ?thesis
      using a b by simp
  qed
  show ?thesis
    using 1 fp 2 3 4 by blast
qed

theorem get_subjects_of_verb_closure_witness:
  "get_subjects_of_verb subj_labels doc_ann 6 = Some [0, 2, 5]"
proof -
  have h: "0 \<in> set (lefts doc_ann 6) \<and> dep_str (tokens doc_ann ! 0) \<in> subj_labels
      \<and> 2 \<in> set (get_conjuncts doc_ann 0) \<and> 5 \<in> set (get_conjuncts doc_ann 2)"
    by code_simp
  have seeds: "[t \<leftarrow> lefts doc_ann 6. dep_str (tokens doc_ann ! t) \<in> subj_labels] = [0]"
    by code_simp
  have conj: "get_conjuncts doc_ann 0 = [2] \<and> get_conjuncts doc_ann 2 = [5]
      \<and> get_conjuncts doc_ann 5 = []"
    by code_simp
  obtain ys where ys: "get_subjects_of_verb subj_labels doc_ann 6 = Some ys"
      and mem: "0 \<in> set ys \<and> 2 \<in> set ys \<and> 5 \<in> set ys"
    using h get_subjects_of_verb_closure
      [where SUBJ_DEPS = subj_labels and d = doc_ann and v = 6 and a = 0 and b = 2 and c = 5]
    by blast
  have "get_subjects_of_verb subj_labels doc_ann 6 = Some [0, 2, 5]"
    using seeds conj
    by (simp add: get_subjects_of_verb_def extend_conjuncts.simps)
  then have "ys = [0, 2, 5]"
    using ys by simp
  then show ?thesis
    using ys mem by simp
qed

text \<open>
  C9. The loop that extends the list it iterates over reaches the end of the list: from
  every list and every position it returns a list, so \<^verbatim>\<open>get_subjects_of_verb\<close> and
  \<^verbatim>\<open>get_objects_of_verb\<close> return on every document. A conjunct lies behind the token it
  hangs off, which bounds the loop whatever the heads of the document are. The list
  returned is a fixed point: it is the initial list followed by the conjuncts of all its
  own elements, so nothing is left to add. The other operations are compositions of total
  functions on finite lists.
\<close>

theorem conjunct_closure_terminates:
  "(\<exists>ys. extend_conjuncts d xs k = Some ys)
   \<and> (\<exists>ys. extend_conjuncts d xs 0 = Some ys
          \<and> ys = xs @ concat (map (get_conjuncts d) ys))
   \<and> (\<exists>ys. get_subjects_of_verb SUBJ_DEPS d v = Some ys
          \<and> ys = [t \<leftarrow> lefts d v. dep_str (tokens d ! t) \<in> SUBJ_DEPS]
                 @ concat (map (get_conjuncts d) ys))
   \<and> (\<exists>ys. get_objects_of_verb OBJ_DEPS d v = Some ys
          \<and> ys = ([t \<leftarrow> rights d v. dep_str (tokens d ! t) \<in> OBJ_DEPS]
                  @ [t \<leftarrow> rights d v. dep_str (tokens d ! t) = ''xcomp''])
                 @ concat (map (get_conjuncts d) ys))"
proof -
  have 1: "\<exists>ys. extend_conjuncts d xs k = Some ys"
    by (rule extend_conjuncts_returns)
  have 2: "\<exists>ys. extend_conjuncts d zs 0 = Some ys
      \<and> ys = zs @ concat (map (get_conjuncts d) ys)" for zs
    by (rule extend_conjuncts_order)
  have 3: "\<exists>ys. get_subjects_of_verb SUBJ_DEPS d v = Some ys
      \<and> ys = [t \<leftarrow> lefts d v. dep_str (tokens d ! t) \<in> SUBJ_DEPS]
             @ concat (map (get_conjuncts d) ys)"
    using 2 [of "[t \<leftarrow> lefts d v. dep_str (tokens d ! t) \<in> SUBJ_DEPS]"]
    by (simp add: get_subjects_of_verb_def)
  have 4: "\<exists>ys. get_objects_of_verb OBJ_DEPS d v = Some ys
      \<and> ys = ([t \<leftarrow> rights d v. dep_str (tokens d ! t) \<in> OBJ_DEPS]
              @ [t \<leftarrow> rights d v. dep_str (tokens d ! t) = ''xcomp''])
             @ concat (map (get_conjuncts d) ys)"
    using 2 [of "[t \<leftarrow> rights d v. dep_str (tokens d ! t) \<in> OBJ_DEPS]
                 @ [t \<leftarrow> rights d v. dep_str (tokens d ! t) = ''xcomp'']"]
    by (simp add: get_objects_of_verb_def)
  show ?thesis
    using 1 2 [of xs] 3 4 by blast
qed

text \<open>
  C4, as claimed: the list returned by \<^verbatim>\<open>get_objects_of_verb\<close> contains each token at
  most once for every configuration of \<^verbatim>\<open>OBJ_DEPS\<close>. With \<^verbatim>\<open>xcomp\<close> in \<^verbatim>\<open>OBJ_DEPS\<close>
  the complement \<open>run\<close> of \<open>wants\<close> is returned twice.
\<close>

theorem get_objects_of_verb_duplicate:
  "get_objects_of_verb {''dobj'', ''xcomp''} doc_wants 1 = Some [3, 3]"
  by (simp add: get_objects_of_verb_def extend_conjuncts.simps get_conjuncts_def rights_def
      doc_wants_def mk_token_def)

text \<open>
  C4, amended. \<^verbatim>\<open>get_objects_of_verb\<close> returns the right children labelled in
  \<^verbatim>\<open>OBJ_DEPS\<close>, then the right children labelled \<^verbatim>\<open>xcomp\<close>, then the conjuncts in the
  order of discovery. This list contains each token at most once exactly when it is not
  the case that \<^verbatim>\<open>xcomp\<close> is in \<^verbatim>\<open>OBJ_DEPS\<close> and the verb has a right child labelled
  \<^verbatim>\<open>xcomp\<close>; in particular for every configuration without \<^verbatim>\<open>xcomp\<close>.
\<close>

theorem get_objects_of_verb_distinct:
  "\<exists>ys. get_objects_of_verb OBJ_DEPS d v = Some ys
     \<and> ys = ([t \<leftarrow> rights d v. dep_str (tokens d ! t) \<in> OBJ_DEPS]
              @ [t \<leftarrow> rights d v. dep_str (tokens d ! t) = ''xcomp''])
            @ concat (map (get_conjuncts d) ys)
     \<and> (distinct ys \<longleftrightarrow>
          \<not> (''xcomp'' \<in> OBJ_DEPS
             \<and> (\<exists>t \<in> set (rights d v). dep_str (tokens d ! t) = ''xcomp'')))"
proof -
  let ?objs = "[t \<leftarrow> rights d v. dep_str (tokens d ! t) \<in> OBJ_DEPS]"
  let ?xcomps = "[t \<leftarrow> rights d v. dep_str (tokens d ! t) = ''xcomp'']"
  obtain ys where ys: "extend_conjuncts d (?objs @ ?xcomps) 0 = Some ys"
      and fp: "ys = (?objs @ ?xcomps) @ concat (map (get_conjuncts d) ys)"
    using extend_conjuncts_order [of d "?objs @ ?xcomps"] by blast
  have res: "get_objects_of_verb OBJ_DEPS d v = Some ys"
    using ys by (simp add: get_objects_of_verb_def)
  have dr: "distinct (rights d v)"
    by (simp add: rights_def)
  have seeds: "distinct (?objs @ ?xcomps)
      \<longleftrightarrow> \<not> (''xcomp'' \<in> OBJ_DEPS
             \<and> (\<exists>t \<in> set (rights d v). dep_str (tokens d ! t) = ''xcomp''))"
    using dr by auto
  have "distinct ys" if "distinct (?objs @ ?xcomps)"
  proof (rule extend_conjuncts_distinct [OF that _ ys])
    show "\<forall>x \<in> set (?objs @ ?xcomps). v < x \<and> head (tokens d ! x) = v"
      by (auto dest: rights_greater)
  qed
  moreover have "distinct (?objs @ ?xcomps)" if "distinct ys"
  proof -
    have "distinct ((?objs @ ?xcomps) @ concat (map (get_conjuncts d) ys))"
      using that fp by simp
    then show ?thesis
      unfolding distinct_append [of "?objs @ ?xcomps"] by blast
  qed
  ultimately have "distinct ys \<longleftrightarrow> distinct (?objs @ ?xcomps)"
    by blast
  then show ?thesis
    using res fp seeds by blast
qed

theorem get_objects_of_verb_distinct_witness:
  "get_objects_of_verb obj_labels doc_wants 1 = Some [3] \<and> distinct [3::nat]"
proof -
  have h: "\<not> (''xcomp'' \<in> obj_labels
      \<and> (\<exists>t \<in> set (rights doc_wants 1). dep_str (tokens doc_wants ! t) = ''xcomp''))"
    by code_simp
  obtain ys where ys: "get_objects_of_verb obj_labels doc_wants 1 = Some ys" and d: "distinct ys"
    using h get_objects_of_verb_distinct
      [where OBJ_DEPS = obj_labels and d = doc_wants and v = 1]
    by blast
  have "get_objects_of_verb obj_labels doc_wants 1 = Some [3]"
    by (simp add: get_objects_of_verb_def extend_conjuncts.simps get_conjuncts_def rights_def
        doc_wants_def mk_token_def obj_labels_def)
  then show ?thesis
    using ys d by simp
qed

section \<open>The readiness flags\<close>

text \<open>
  C3, as claimed: every operation that reads the dependency parse raises on a document
  that is not parsed. On such a document \<^verbatim>\<open>get_subjects_of_verb\<close>,
  \<^verbatim>\<open>get_objects_of_verb\<close> and \<^verbatim>\<open>get_span_for_verb_auxiliaries\<close> return a result.
\<close>

theorem unparsed_document_returns:
  "\<not> is_parsed doc_unparsed
   \<and> get_subjects_of_verb subj_labels doc_unparsed 1 = Some []
   \<and> get_objects_of_verb obj_labels doc_unparsed 1 = Some []
   \<and> get_span_for_verb_auxiliaries aux_labels doc_unparsed 1 = (1, 1)"
  by (simp add: get_subjects_of_verb_def get_objects_of_verb_def extend_conjuncts.simps
      get_span_for_verb_auxiliaries_def lefts_def rights_def doc_unparsed_def mk_token_def)

text \<open>
  C3, amended. Of the operations that read the dependency parse, \<^verbatim>\<open>is_negated_verb\<close>
  checks the flag and raises \<^verbatim>\<open>ValueError\<close> on a document that is not parsed.
  \<^verbatim>\<open>get_subjects_of_verb\<close>, \<^verbatim>\<open>get_objects_of_verb\<close> and
  \<^verbatim>\<open>get_span_for_verb_auxiliaries\<close> do not read the flag: they return, and what they
  return does not change with the flag.
\<close>

theorem parse_flag_checked_by_is_negated_verb:
  "(\<not> is_parsed d \<longrightarrow> is_negated_verb d i = Inl (ValueError ''token is not parsed''))
   \<and> get_subjects_of_verb SUBJ_DEPS (d\<lparr>is_parsed := b\<rparr>) v = get_subjects_of_verb SUBJ_DEPS d v
   \<and> get_objects_of_verb OBJ_DEPS (d\<lparr>is_parsed := b\<rparr>) v = get_objects_of_verb OBJ_DEPS d v
   \<and> get_span_for_verb_auxiliaries AUX_DEPS (d\<lparr>is_parsed := b\<rparr>) v
       = get_span_for_verb_auxiliaries AUX_DEPS d v
   \<and> (\<exists>ys. get_subjects_of_verb SUBJ_DEPS d v = Some ys)
   \<and> (\<exists>ys. get_objects_of_verb OBJ_DEPS d v = Some ys)"
proof -
  have l: "lefts (d\<lparr>is_parsed := b\<rparr>) v = lefts d v"
    and r: "rights (d\<lparr>is_parsed := b\<rparr>) v = rights d v"
    by (simp_all add: lefts_def rights_def)
  have e: "extend_conjuncts (d\<lparr>is_parsed := b\<rparr>) xs 0 = extend_conjuncts d xs 0" for xs
    by (rule extend_conjuncts_cong) simp
  have 1: "\<not> is_parsed d \<longrightarrow> is_negated_verb d i = Inl (ValueError ''token is not parsed'')"
    by (simp add: is_negated_verb_def)
  have 2: "get_subjects_of_verb SUBJ_DEPS (d\<lparr>is_parsed := b\<rparr>) v
      = get_subjects_of_verb SUBJ_DEPS d v"
    by (simp add: get_subjects_of_verb_def l e)
  have 3: "get_objects_of_verb OBJ_DEPS (d\<lparr>is_parsed := b\<rparr>) v
      = get_objects_of_verb OBJ_DEPS d v"
    by (simp add: get_objects_of_verb_def r e)
  have 4: "get_span_for_verb_auxiliaries AUX_DEPS (d\<lparr>is_parsed := b\<rparr>) v
      = get_span_for_verb_auxiliaries AUX_DEPS d v"
    by (simp add: get_span_for_verb_auxiliaries_def l r)
  have 5: "\<exists>ys. get_subjects_of_verb SUBJ_DEPS d v = Some ys"
    by (simp add: get_subjects_of_verb_def extend_conjuncts_returns)
  have 6: "\<exists>ys. get_objects_of_verb OBJ_DEPS d v = Some ys"
    by (simp add: get_objects_of_verb_def extend_conjuncts_returns)
  show ?thesis
    using 1 2 3 4 5 6 by blast
qed

theorem parse_flag_checked_by_is_negated_verb_witness:
  "is_negated_verb doc_unparsed 1 = Inl (ValueError ''token is not parsed'')
   \<and> get_subjects_of_verb subj_labels (doc_dogs\<lparr>is_parsed := False\<rparr>) 1
       = get_subjects_of_verb subj_labels doc_dogs 1"
proof -
  have "\<not> is_parsed doc_unparsed"
    by (simp add: doc_unparsed_def)
  then show ?thesis
    using parse_flag_checked_by_is_negated_verb [where d = doc_unparsed and i = 1]
      parse_flag_checked_by_is_negated_verb
        [where d = doc_dogs and b = False and SUBJ_DEPS = subj_labels and v = 1]
    by blast
qed

section \<open>The span merger\<close>

text \<open>
  C1. \<^verbatim>\<open>merge_spans\<close> is meant to record the tuple of every span on the document as it
  is before the first merge. It does not when the iterable builds its spans on demand.
  On the ten tokens of \<open>doc_cities\<close> with the generator \<^verbatim>\<open>(doc[s:e] for s, e in [(2, 4),
  (6, 8)])\<close> the tuple of the first span is the one of the original document, but the second
  span is asked for, and its tuple read, after the first merge has moved the tokens: the
  tuple covers \<open>Angeles\<close> and the comma, where the original document gives \<open>Los Angeles\<close>,
  and the second merge joins these two tokens. With the same two spans built before the
  call, each span finds its range again and both tuples are those of the original
  document.
\<close>

theorem merge_spans_records_after_merging:
  "fst (merge_spans (lazy_slices [(2, 4), (6, 8)]) doc_cities)
     = [(7, 15, ''NNP'', ''New York'', []), (30, 38, ''NNP'', ''Angeles,'', [])]
   \<and> span_to_tuple doc_cities (doc_slice doc_cities 2 4) = Inr (7, 15, ''NNP'', ''New York'', [])
   \<and> span_to_tuple doc_cities (doc_slice doc_cities 6 8) = Inr (26, 37, ''NNP'', ''Los Angeles'', [])
   \<and> map text_str (tokens (fst (snd (merge_spans (lazy_slices [(2, 4), (6, 8)]) doc_cities))))
     = [''I'', ''love'', ''New York'', ''more'', ''than'', ''Los'', ''Angeles,'', ''honestly'']
   \<and> fst (merge_spans (built_spans [doc_slice doc_cities 2 4, doc_slice doc_cities 6 8]) doc_cities)
     = [(7, 15, ''NNP'', ''New York'', []), (26, 37, ''NNP'', ''Los Angeles'', [])]
   \<and> map text_str
        (tokens (fst (snd (merge_spans
           (built_spans [doc_slice doc_cities 2 4, doc_slice doc_cities 6 8]) doc_cities))))
     = [''I'', ''love'', ''New York'', ''more'', ''than'', ''Los Angeles'', '','', ''honestly'']"
  by code_simp

end
